theory Spec2Isabelle
  imports Complex_Main "HOL-Library.Sublist"
begin

section \<open>Strings\<close>

text \<open>
  A \<open>string\<close> is the UTF-8 encoding of a Python \<^verbatim>\<open>str\<close>. Emptiness and the substring
  test agree on both: UTF-8 is self-synchronising, so one encoding occurs inside another
  only at character boundaries.
\<close>

text \<open>
  The characters that \<^verbatim>\<open>str.isspace\<close> accepts and \<^verbatim>\<open>str.strip()\<close> removes, by the
  length of their encoding: U+0009..U+000D, U+001C..U+001F and U+0020 in one byte;
  U+0085 and U+00A0 in two; U+1680, U+2000..U+200A, U+2028, U+2029, U+202F, U+205F and
  U+3000 in three.
\<close>

definition space1 :: "char \<Rightarrow> bool" where
  "space1 a = (a \<in> set [CHR 0x09, CHR 0x0A, CHR 0x0B, CHR 0x0C, CHR 0x0D,
                         CHR 0x1C, CHR 0x1D, CHR 0x1E, CHR 0x1F, CHR 0x20])"

definition space2 :: "char \<Rightarrow> char \<Rightarrow> bool" where
  "space2 a b = (a = CHR 0xC2 \<and> (b = CHR 0x85 \<or> b = CHR 0xA0))"

definition space3 :: "char \<Rightarrow> char \<Rightarrow> char \<Rightarrow> bool" where
  "space3 a b c =
     (a = CHR 0xE1 \<and> b = CHR 0x9A \<and> c = CHR 0x80 \<or>
      a = CHR 0xE2 \<and> b = CHR 0x80 \<and>
        c \<in> set [CHR 0x80, CHR 0x81, CHR 0x82, CHR 0x83, CHR 0x84, CHR 0x85, CHR 0x86,
                   CHR 0x87, CHR 0x88, CHR 0x89, CHR 0x8A, CHR 0xA8, CHR 0xA9, CHR 0xAF] \<or>
      a = CHR 0xE2 \<and> b = CHR 0x81 \<and> c = CHR 0x9F \<or>
      a = CHR 0xE3 \<and> b = CHR 0x80 \<and> c = CHR 0x80)"

text \<open>\<^verbatim>\<open>str.lstrip()\<close>: the whitespace characters at the front are dropped.\<close>

fun lstrip :: "string \<Rightarrow> string" where
  "lstrip (a # b # c # r) =
     (if space1 a then lstrip (b # c # r)
      else if space2 a b then lstrip (c # r)
      else if space3 a b c then lstrip r
      else a # b # c # r)"
| "lstrip [a, b] = (if space1 a then lstrip [b] else if space2 a b then [] else [a, b])"
| "lstrip [a] = (if space1 a then [] else [a])"
| "lstrip [] = []"

text \<open>
  The same from the back, on the reversed string: the first byte is the last of the
  string, so the bytes of a whitespace character are met in reverse.
\<close>

fun rstrip_rev :: "string \<Rightarrow> string" where
  "rstrip_rev (a # b # c # r) =
     (if space1 a then rstrip_rev (b # c # r)
      else if space2 b a then rstrip_rev (c # r)
      else if space3 c b a then rstrip_rev r
      else a # b # c # r)"
| "rstrip_rev [a, b] = (if space1 a then rstrip_rev [b] else if space2 b a then [] else [a, b])"
| "rstrip_rev [a] = (if space1 a then [] else [a])"
| "rstrip_rev [] = []"

text \<open>\<^verbatim>\<open>str.strip()\<close>.\<close>

definition strip :: "string \<Rightarrow> string" where
  "strip s = rev (rstrip_rev (rev (lstrip s)))"

text \<open>Python's \<^verbatim>\<open>needle in haystack\<close> on strings: a contiguous substring test.\<close>

fun str_contains :: "string \<Rightarrow> string \<Rightarrow> bool" where
  "str_contains needle [] = (needle = [])"
| "str_contains needle (h # hs) = (prefix needle (h # hs) \<or> str_contains needle hs)"

text \<open>Truth value of an optional string in a Python condition (\<^verbatim>\<open>if link:\<close>).\<close>

definition truthy :: "string option \<Rightarrow> bool" where
  "truthy v = (case v of None \<Rightarrow> False | Some s \<Rightarrow> s \<noteq> [])"

section \<open>Data model\<close>

text \<open>
  The dictionary yielded at line 334 of \<^verbatim>\<open>Facebook_scraper.py\<close>. Every
  \<^verbatim>\<open>get_attribute\<close> result is an optional string, so the media lists hold optional
  strings, as the Python lists do.
\<close>

record post =
  p_name :: "string option"
  p_text :: string
  p_link :: "string option"
  p_date :: "string option"
  p_images :: "string option list"
  p_videos :: "string option list"
  p_keyword :: string

text \<open>
  What the browser answers while one post element is processed (lines 254-314), one field
  per browser call whose result or failure the code depends on. \<open>None\<close> or \<open>False\<close>
  stands for the call raising (element not found, wait timed out).
\<close>

record elem =
  story_message :: "string option"      \<comment> \<open>line 255: text of the story body, if found\<close>
  img_src :: "string option list"       \<comment> \<open>line 261: \<^verbatim>\<open>src\<close> of each image, DOM order\<close>
  video_href :: "string option list"    \<comment> \<open>line 265: \<^verbatim>\<open>href\<close> of each video's link ancestor\<close>
  span_elem :: bool                     \<comment> \<open>line 274: timestamp element found\<close>
  in_viewport :: bool                   \<comment> \<open>lines 277-289: scrolled into view and hovered\<close>
  date_tooltip :: "string option"       \<comment> \<open>lines 294-296: tooltip text, if it appeared\<close>
  clicked_url :: "string option"        \<comment> \<open>lines 301-304: location after the click\<close>
  name_primary :: "string option"       \<comment> \<open>line 308\<close>
  name_fallback :: "string option"      \<comment> \<open>line 310\<close>
  back_ok :: bool                       \<comment> \<open>lines 313-314: returned to the old location\<close>

text \<open>The three locals that the inner \<^verbatim>\<open>try\<close> block of lines 273-316 assigns.\<close>

record locals =
  link :: "string option"
  post_date :: "string option"
  poster_name :: "string option"

text \<open>One pass of the \<^verbatim>\<open>while\<close> loop as the browser and the clock answer it.\<close>

record cycle =
  elements :: "elem list"     \<comment> \<open>line 238\<close>
  initial_count :: nat        \<comment> \<open>line 340\<close>
  initial_height :: int       \<comment> \<open>line 341\<close>
  grown_count :: nat          \<comment> \<open>element count seen by the wait of lines 344-345\<close>
  new_height :: int           \<comment> \<open>line 348 (the wait of line 344 sees the same height)\<close>
  now :: real                 \<comment> \<open>line 357: \<^verbatim>\<open>time.time()\<close>\<close>

record crawl_state =
  url_crawled :: "string option list"
  last_height :: int
  scroll_attempts :: nat

text \<open>
  How a call ends: the search failed (line 227), the loop was left and line 363 logged the
  count, or the script of browser answers ran out while the loop would still run.
\<close>

datatype run_end = SearchFailed | Done crawl_state | Pending crawl_state

record session =
  search_ok :: bool                          \<comment> \<open>lines 203-227\<close>
  white_list :: "string option"              \<comment> \<open>\<^verbatim>\<open>self.white_list\<close>\<close>
  white_list_file :: "string list option"    \<comment> \<open>lines of the file; \<open>None\<close>: not found\<close>
  first_height :: int                        \<comment> \<open>line 231\<close>
  start_time :: real                         \<comment> \<open>line 233: \<^verbatim>\<open>time.time()\<close>\<close>
  cycles :: "cycle list"

section \<open>Operations\<close>

text \<open>\<^verbatim>\<open>load_white_list\<close>, lines 120-137.\<close>

definition load_white_list :: "string list option \<Rightarrow> string list" where
  "load_white_list file =
     (case file of
        None \<Rightarrow> []
      | Some lines \<Rightarrow> filter (\<lambda>line. line \<noteq> []) (map strip lines))"

text \<open>
  Lines 268-316. The result is the locals after the \<^verbatim>\<open>try\<close> block and whether an
  exception was caught at line 315. The handler only logs, so what was assigned before
  the raising call stays assigned.
\<close>

definition extract_link_date_name :: "elem \<Rightarrow> locals \<times> bool" where
  "extract_link_date_name e =
     (let l0 = \<lparr>link = None, post_date = None, poster_name = None\<rparr> in
      if \<not> span_elem e then (l0, True)
      else if \<not> in_viewport e then (l0, True)
      else
        (case date_tooltip e of
           None \<Rightarrow> (l0, True)
         | Some t \<Rightarrow>
             (if strip t = [] then (l0, True)
              else
                (let l1 = l0\<lparr>post_date := Some (strip t)\<rparr> in
                 (case clicked_url e of
                    None \<Rightarrow> (l1, True)
                  | Some u \<Rightarrow>
                      (let l2 = l1\<lparr>link := Some u\<rparr> in
                       (case (case name_primary e of
                                Some n \<Rightarrow> Some n
                              | None \<Rightarrow> name_fallback e) of
                          None \<Rightarrow> (l2, True)
                        | Some n \<Rightarrow> (l2\<lparr>poster_name := Some n\<rparr>, \<not> back_ok e))))))))"

text \<open>
  The browser answers with which lines 274-298 all succeed, so that line 298 assigns the
  date: the timestamp element is found and comes into view, and the tooltip shows text
  that is not blank.
\<close>

definition date_read :: "elem \<Rightarrow> bool" where
  "date_read e =
     (span_elem e \<and> in_viewport e \<and>
      (case date_tooltip e of None \<Rightarrow> False | Some t \<Rightarrow> strip t \<noteq> []))"

text \<open>
  Lines 254-316: the record built from one element, or \<open>None\<close> when the outer
  \<^verbatim>\<open>try\<close> catches an exception (no story body; a null \<^verbatim>\<open>src\<close>, on which the
  \<^verbatim>\<open>in\<close> test of line 261 raises TypeError).
\<close>

definition extract_post :: "string \<Rightarrow> elem \<Rightarrow> post option" where
  "extract_post keyword e =
     (case story_message e of
        None \<Rightarrow> None
      | Some s \<Rightarrow>
          if None \<in> set (img_src e) then None
          else
            let l = fst (extract_link_date_name e) in
            Some \<lparr>p_name = poster_name l,
                  p_text = strip s,
                  p_link = link l,
                  p_date = post_date l,
                  p_images = filter (\<lambda>src. case src of None \<Rightarrow> False
                                       | Some u \<Rightarrow> \<not> str_contains ''emoji.php'' u) (img_src e),
                  p_videos = video_href e,
                  p_keyword = keyword\<rparr>)"

text \<open>Lines 318-327: the whitelist test.\<close>

definition skip_post :: "string list \<Rightarrow> string option \<Rightarrow> bool" where
  "skip_post whitelist_entries l =
     (case l of
        None \<Rightarrow> False
      | Some u \<Rightarrow> u \<noteq> [] \<and> (\<exists>entry \<in> set whitelist_entries. str_contains entry u))"

text \<open>Lines 318-334: the record is yielded or dropped, and \<^verbatim>\<open>url_crawled\<close> updated.\<close>

definition admit :: "string list \<Rightarrow> string option list \<Rightarrow> post \<Rightarrow> post option \<times> string option list" where
  "admit whitelist_entries crawled p =
     (if skip_post whitelist_entries (p_link p) then (None, crawled)
      else if p_link p \<in> set crawled then (None, crawled)
      else (Some p, crawled @ [p_link p]))"

definition process_elem ::
  "string list \<Rightarrow> string \<Rightarrow> string option list \<Rightarrow> elem \<Rightarrow> post option \<times> string option list" where
  "process_elem whitelist_entries keyword crawled e =
     (case extract_post keyword e of
        None \<Rightarrow> (None, crawled)
      | Some p \<Rightarrow> admit whitelist_entries crawled p)"

text \<open>The \<^verbatim>\<open>for\<close> loop of lines 240-336, with its \<^verbatim>\<open>break\<close> at line 241.\<close>

fun scan_elements ::
  "string list \<Rightarrow> string \<Rightarrow> int \<Rightarrow> elem list \<Rightarrow> string option list
     \<Rightarrow> post list \<times> string option list" where
  "scan_elements wl kw max_posts [] crawled = ([], crawled)"
| "scan_elements wl kw max_posts (e # es) crawled =
     (if int (length crawled) \<ge> max_posts then ([], crawled)
      else
        case process_elem wl kw crawled e of
          (None, crawled') \<Rightarrow> scan_elements wl kw max_posts es crawled'
        | (Some p, crawled') \<Rightarrow>
            (case scan_elements wl kw max_posts es crawled' of
               (ps, crawled'') \<Rightarrow> (p # ps, crawled'')))"

text \<open>The condition the wait of lines 344-345 polls for; it only decides whether line 347 sleeps.\<close>

definition wait_until_growth :: "cycle \<Rightarrow> bool" where
  "wait_until_growth c = (new_height c > initial_height c \<or> grown_count c > initial_count c)"

text \<open>The loop condition of line 236.\<close>

definition while_cond :: "int \<Rightarrow> crawl_state \<Rightarrow> bool" where
  "while_cond max_posts st = (int (length (url_crawled st)) < max_posts \<and> scroll_attempts st < 5)"

text \<open>
  One pass of the loop body, lines 237-361: the records yielded, the state after it and
  whether line 359 left the loop (in which case line 361 did not run).
\<close>

definition cycle_body ::
  "string list \<Rightarrow> string \<Rightarrow> int \<Rightarrow> real \<Rightarrow> cycle \<Rightarrow> crawl_state
     \<Rightarrow> post list \<times> crawl_state \<times> bool" where
  "cycle_body wl kw max_posts timeout c st =
     (case scan_elements wl kw max_posts (elements c) (url_crawled st) of
        (ps, crawled) \<Rightarrow>
          let st1 = st\<lparr>url_crawled := crawled,
                       scroll_attempts := (if new_height c = last_height st
                                           then scroll_attempts st + 1 else 0)\<rparr>
          in if now c > timeout then (ps, st1, True)
             else (ps, st1\<lparr>last_height := new_height c\<rparr>, False))"

text \<open>The \<^verbatim>\<open>while\<close> loop of lines 236-361 over a finite script of browser answers.\<close>

fun collect ::
  "string list \<Rightarrow> string \<Rightarrow> int \<Rightarrow> real \<Rightarrow> cycle list \<Rightarrow> crawl_state \<Rightarrow> post list \<times> run_end" where
  "collect wl kw max_posts timeout [] st =
     ([], if while_cond max_posts st then Pending st else Done st)"
| "collect wl kw max_posts timeout (c # cs) st =
     (if \<not> while_cond max_posts st then ([], Done st)
      else
        case cycle_body wl kw max_posts timeout c st of
          (ps, st1, left) \<Rightarrow>
            if left then (ps, Done st1)
            else (case collect wl kw max_posts timeout cs st1 of
                    (qs, r) \<Rightarrow> (ps @ qs, r)))"

text \<open>Lines 234 and 233: the whitelist and the deadline of a call.\<close>

definition whitelist_of :: "session \<Rightarrow> string list" where
  "whitelist_of S = (if truthy (white_list S) then load_white_list (white_list_file S) else [])"

definition timeout_of :: "session \<Rightarrow> int \<Rightarrow> real" where
  "timeout_of S max_posts = start_time S + of_int (max_posts * 5)"

text \<open>\<^verbatim>\<open>scrape_posts\<close>, lines 189-363: the records yielded, in order, and how the call ended.\<close>

definition scrape_posts :: "session \<Rightarrow> string \<Rightarrow> int \<Rightarrow> post list \<times> run_end" where
  "scrape_posts S keyword max_posts =
     (if \<not> search_ok S then ([], SearchFailed)
      else collect (whitelist_of S) keyword max_posts (timeout_of S max_posts) (cycles S)
             \<lparr>url_crawled = [], last_height = first_height S, scroll_attempts = 0\<rparr>)"

text \<open>
  The keyword loop of \<^verbatim>\<open>main\<close>, lines 412-426: every record of every call, in the
  order in which it is appended to a batch. Each keyword comes with the browser's answers
  during its call.
\<close>

definition crawl_keywords :: "(string \<times> session) list \<Rightarrow> int \<Rightarrow> post list" where
  "crawl_keywords runs max_posts =
     concat (map (\<lambda>(keyword, S). fst (scrape_posts S keyword max_posts)) runs)"

text \<open>The state a run ended in, when the search succeeded.\<close>

fun end_state :: "run_end \<Rightarrow> crawl_state option" where
  "end_state SearchFailed = None"
| "end_state (Done st) = Some st"
| "end_state (Pending st) = Some st"

section \<open>Example sessions\<close>

text \<open>
  Browser answers used to run the definitions: a post whose every sub-step succeeds, a post
  whose timestamp element is missing, a pass of the loop that shows the given elements, and
  a call whose search succeeds.
\<close>

definition elem_full :: "string \<Rightarrow> string \<Rightarrow> elem" where
  "elem_full body url =
     \<lparr>story_message = Some body, img_src = [], video_href = [],
      span_elem = True, in_viewport = True, date_tooltip = Some ''1 h'',
      clicked_url = Some url, name_primary = Some ''Ann'', name_fallback = None,
      back_ok = True\<rparr>"

definition elem_bare :: "string \<Rightarrow> elem" where
  "elem_bare body =
     \<lparr>story_message = Some body, img_src = [], video_href = [],
      span_elem = False, in_viewport = False, date_tooltip = None,
      clicked_url = None, name_primary = None, name_fallback = None,
      back_ok = False\<rparr>"

definition one_cycle :: "elem list \<Rightarrow> int \<Rightarrow> real \<Rightarrow> cycle" where
  "one_cycle es h t =
     \<lparr>elements = es, initial_count = length es, initial_height = h,
      grown_count = length es, new_height = h, now = t\<rparr>"

definition session_of :: "string list option \<Rightarrow> cycle list \<Rightarrow> session" where
  "session_of file cs =
     \<lparr>search_ok = True, white_list = Some ''white_list.txt'', white_list_file = file,
      first_height = 0, start_time = 0, cycles = cs\<rparr>"

definition adtracker_session :: session where
  "adtracker_session =
     session_of (Some [''adtracker.example'', [], ''  spam.example  ''])
       [one_cycle [elem_full ''ad'' ''https://adtracker.example/post/1'',
                   elem_full ''news'' ''https://fb.example/post/2''] 7 1]"

definition news_post :: post where
  "news_post = \<lparr>p_name = Some ''Ann'', p_text = ''news'',
      p_link = Some ''https://fb.example/post/2'', p_date = Some ''1 h'',
      p_images = [], p_videos = [], p_keyword = ''k''\<rparr>"

definition ad_post :: post where
  "ad_post = \<lparr>p_name = Some ''Ann'', p_text = ''ad'',
      p_link = Some ''https://adtracker.example/post/1'', p_date = Some ''1 h'',
      p_images = [], p_videos = [], p_keyword = ''k''\<rparr>"

definition twin_post :: post where
  "twin_post = \<lparr>p_name = Some ''Ann'', p_text = ''x'', p_link = Some ''u1'',
      p_date = Some ''1 h'', p_images = [], p_videos = [], p_keyword = ''k''\<rparr>"

definition bare_post :: "string \<Rightarrow> post" where
  "bare_post body = \<lparr>p_name = None, p_text = body, p_link = None, p_date = None,
      p_images = [], p_videos = [], p_keyword = ''k''\<rparr>"

text \<open>A post whose tooltip is read but whose click does not lead anywhere.\<close>

definition elem_click_fails :: elem where
  "elem_click_fails = (elem_full '' hello '' ''u1'')\<lparr>clicked_url := None\<rparr>"

text \<open>A post with an image without source text and videos whose links carry no target.\<close>

definition elem_media :: elem where
  "elem_media = (elem_full ''clip'' ''u1'')
     \<lparr>img_src := [Some ''https://cdn.example/a.jpg'', Some ''https://cdn.example/emoji.php/1.png'',
                  Some []],
      video_href := [None, Some []]\<rparr>"

definition media_post :: post where
  "media_post = \<lparr>p_name = Some ''Ann'', p_text = ''clip'', p_link = Some ''u1'',
      p_date = Some ''1 h'', p_images = [Some ''https://cdn.example/a.jpg'', Some []],
      p_videos = [None, Some []], p_keyword = ''k''\<rparr>"

text \<open>
  The height that \<^verbatim>\<open>last_height\<close> holds after the passes \<open>pre\<close>, none of which left
  the loop: line 361 stores the height read at line 348.
\<close>

definition height_before :: "int \<Rightarrow> cycle list \<Rightarrow> int" where
  "height_before h0 pre = (if pre = [] then h0 else new_height (last pre))"

text \<open>A pass that shows no element and reads the given counts, heights and time.\<close>

definition scroll_only :: "nat \<Rightarrow> int \<Rightarrow> nat \<Rightarrow> int \<Rightarrow> real \<Rightarrow> cycle" where
  "scroll_only n h n' h' t =
     \<lparr>elements = [], initial_count = n, initial_height = h,
      grown_count = n', new_height = h', now = t\<rparr>"

text \<open>Five passes that find the page as high as before, then a pass that would show a post.\<close>

definition stalled_session :: session where
  "stalled_session =
     session_of None
       [scroll_only 0 0 0 0 1, scroll_only 0 0 0 0 1, scroll_only 0 0 0 0 1, scroll_only 0 0 0 0 1,
        scroll_only 0 0 0 0 1, one_cycle [elem_full ''x'' ''u1''] 9 1]"


text \<open>
  Five passes in which the page grew during the scan and nothing came after the scroll,
  and five passes whose wait sees one more element at an unchanged height.
\<close>

definition grown_in_scan :: "cycle list" where
  "grown_in_scan =
     [scroll_only 0 10 0 10 1, scroll_only 0 20 0 20 1, scroll_only 0 30 0 30 1,
      scroll_only 0 40 0 40 1, scroll_only 0 50 0 50 1]"

definition more_elements :: "cycle list" where
  "more_elements =
     [scroll_only 0 0 1 0 1, scroll_only 1 0 2 0 1, scroll_only 2 0 3 0 1,
      scroll_only 3 0 4 0 1, scroll_only 4 0 5 0 1]"


section \<open>Facts about the loops\<close>

lemma str_contains_sublist: "str_contains n h = sublist n h"
  by (induction h) (auto simp: sublist_Cons_right)

lemma admit_cases:
  "admit wl uc p = (None, uc) \<or>
   admit wl uc p = (Some p, uc @ [p_link p]) \<and> \<not> skip_post wl (p_link p) \<and> p_link p \<notin> set uc"
  by (simp add: admit_def)

lemma process_elem_cases:
  "process_elem wl kw uc e = (None, uc) \<or>
   (\<exists>p. extract_post kw e = Some p \<and> process_elem wl kw uc e = (Some p, uc @ [p_link p])
        \<and> \<not> skip_post wl (p_link p) \<and> p_link p \<notin> set uc)"
  using admit_cases [of wl uc] by (auto simp: process_elem_def split: option.splits)

lemma scan_elements_Cons:
  assumes "scan_elements wl kw m (e # es) uc = (ps, uc')"
  shows "(m \<le> int (length uc) \<and> ps = [] \<and> uc' = uc) \<or>
         (int (length uc) < m \<and> process_elem wl kw uc e = (None, uc)
            \<and> scan_elements wl kw m es uc = (ps, uc')) \<or>
         (int (length uc) < m \<and>
            (\<exists>p qs. process_elem wl kw uc e = (Some p, uc @ [p_link p])
               \<and> extract_post kw e = Some p \<and> \<not> skip_post wl (p_link p) \<and> p_link p \<notin> set uc
               \<and> ps = p # qs \<and> scan_elements wl kw m es (uc @ [p_link p]) = (qs, uc')))"
proof (cases "m \<le> int (length uc)")
  case True
  with assms show ?thesis by simp
next
  case False
  from process_elem_cases [of wl kw uc e] show ?thesis
  proof
    assume "process_elem wl kw uc e = (None, uc)"
    with False assms show ?thesis by simp
  next
    assume "\<exists>p. extract_post kw e = Some p \<and> process_elem wl kw uc e = (Some p, uc @ [p_link p])
        \<and> \<not> skip_post wl (p_link p) \<and> p_link p \<notin> set uc"
    then obtain p where p: "process_elem wl kw uc e = (Some p, uc @ [p_link p])"
      "extract_post kw e = Some p" "\<not> skip_post wl (p_link p)" "p_link p \<notin> set uc" by blast
    with False assms show ?thesis by (auto split: prod.splits)
  qed
qed

lemma scan_elements_crawled:
  "scan_elements wl kw m es uc = (ps, uc') \<Longrightarrow> uc' = uc @ map p_link ps"
proof (induction es arbitrary: uc ps)
  case Nil
  then show ?case by simp
next
  case (Cons e es)
  from scan_elements_Cons [OF Cons.prems] Cons.IH show ?case by fastforce
qed

lemma scan_elements_distinct:
  "scan_elements wl kw m es uc = (ps, uc') \<Longrightarrow> distinct uc \<Longrightarrow> distinct uc'"
proof (induction es arbitrary: uc ps)
  case Nil
  then show ?case by simp
next
  case (Cons e es)
  from scan_elements_Cons [OF Cons.prems(1)] Cons.prems(2) Cons.IH show ?case
    by (elim disjE conjE exE) (simp, blast, simp)
qed

lemma scan_elements_cap:
  "scan_elements wl kw m es uc = (ps, uc') \<Longrightarrow> int (length uc) \<le> m \<Longrightarrow> int (length uc') \<le> m"
proof (induction es arbitrary: uc ps)
  case Nil
  then show ?case by simp
next
  case (Cons e es)
  from scan_elements_Cons [OF Cons.prems(1)] Cons.prems(2) Cons.IH show ?case
    by (elim disjE conjE exE) (simp, blast, simp)
qed

lemma scan_elements_not_skipped:
  "scan_elements wl kw m es uc = (ps, uc') \<Longrightarrow> p \<in> set ps \<Longrightarrow> \<not> skip_post wl (p_link p)"
proof (induction es arbitrary: uc ps)
  case Nil
  then show ?case by simp
next
  case (Cons e es)
  from scan_elements_Cons [OF Cons.prems(1)] Cons.prems(2) Cons.IH show ?case
    by (elim disjE conjE exE) (simp, blast, auto)
qed

lemma cycle_body_eq:
  assumes "cycle_body wl kw m t c st = (ps, st1, left)"
  shows "scan_elements wl kw m (elements c) (url_crawled st) = (ps, url_crawled st1)"
    and "scroll_attempts st1 = (if new_height c = last_height st then scroll_attempts st + 1 else 0)"
    and "left = (now c > t)"
    and "last_height st1 = (if left then last_height st else new_height c)"
  using assms by (auto simp: cycle_body_def Let_def split: prod.splits if_splits)

lemma collect_Cons:
  assumes "collect wl kw m t (c # cs) st = (out, r)"
  shows "(\<not> while_cond m st \<and> out = [] \<and> r = Done st) \<or>
         (while_cond m st \<and> (\<exists>st1. cycle_body wl kw m t c st = (out, st1, True) \<and> r = Done st1)) \<or>
         (while_cond m st \<and>
            (\<exists>ps st1 qs. cycle_body wl kw m t c st = (ps, st1, False)
               \<and> collect wl kw m t cs st1 = (qs, r) \<and> out = ps @ qs))"
  using assms by (auto split: prod.splits if_splits)

lemma collect_end_state:
  "collect wl kw m t cs st = (out, r) \<Longrightarrow> \<exists>st'. end_state r = Some st'"
proof (induction cs arbitrary: st out)
  case Nil
  then show ?case by (auto split: if_splits)
next
  case (Cons c cs)
  from collect_Cons [OF Cons.prems] Cons.IH show ?case
    by (elim disjE conjE exE) (simp, simp, blast)
qed

lemma collect_crawled:
  "collect wl kw m t cs st = (out, r) \<Longrightarrow> end_state r = Some st'
     \<Longrightarrow> url_crawled st' = url_crawled st @ map p_link out"
proof (induction cs arbitrary: st out)
  case Nil
  then show ?case by (auto split: if_splits)
next
  case (Cons c cs)
  from collect_Cons [OF Cons.prems(1)] show ?case
  proof (elim disjE conjE exE)
    assume "out = []" "r = Done st"
    with Cons.prems(2) show ?thesis by simp
  next
    fix st1 assume "cycle_body wl kw m t c st = (out, st1, True)" "r = Done st1"
    with Cons.prems(2) scan_elements_crawled cycle_body_eq(1) show ?thesis by fastforce
  next
    fix ps st1 qs
    assume b: "cycle_body wl kw m t c st = (ps, st1, False)"
      and r: "collect wl kw m t cs st1 = (qs, r)" and o: "out = ps @ qs"
    from scan_elements_crawled [OF cycle_body_eq(1) [OF b]]
    have "url_crawled st1 = url_crawled st @ map p_link ps" .
    with Cons.IH [OF r Cons.prems(2)] o show ?thesis by simp
  qed
qed

lemma collect_distinct:
  "collect wl kw m t cs st = (out, r) \<Longrightarrow> end_state r = Some st'
     \<Longrightarrow> distinct (url_crawled st) \<Longrightarrow> distinct (url_crawled st')"
proof (induction cs arbitrary: st out)
  case Nil
  then show ?case by (auto split: if_splits)
next
  case (Cons c cs)
  from collect_Cons [OF Cons.prems(1)] show ?case
  proof (elim disjE conjE exE)
    assume "out = []" "r = Done st"
    with Cons.prems show ?thesis by simp
  next
    fix st1 assume "cycle_body wl kw m t c st = (out, st1, True)" "r = Done st1"
    with Cons.prems scan_elements_distinct cycle_body_eq(1) show ?thesis by fastforce
  next
    fix ps st1 qs
    assume b: "cycle_body wl kw m t c st = (ps, st1, False)"
      and r: "collect wl kw m t cs st1 = (qs, r)"
    from scan_elements_distinct [OF cycle_body_eq(1) [OF b] Cons.prems(3)]
    have "distinct (url_crawled st1)" .
    with Cons.IH [OF r Cons.prems(2)] show ?thesis by simp
  qed
qed

lemma collect_cap:
  "collect wl kw m t cs st = (out, r) \<Longrightarrow> end_state r = Some st'
     \<Longrightarrow> int (length (url_crawled st)) \<le> m \<Longrightarrow> int (length (url_crawled st')) \<le> m"
proof (induction cs arbitrary: st out)
  case Nil
  then show ?case by (auto split: if_splits)
next
  case (Cons c cs)
  from collect_Cons [OF Cons.prems(1)] show ?case
  proof (elim disjE conjE exE)
    assume "out = []" "r = Done st"
    with Cons.prems show ?thesis by simp
  next
    fix st1 assume "cycle_body wl kw m t c st = (out, st1, True)" "r = Done st1"
    with Cons.prems scan_elements_cap cycle_body_eq(1) show ?thesis by fastforce
  next
    fix ps st1 qs
    assume b: "cycle_body wl kw m t c st = (ps, st1, False)"
      and r: "collect wl kw m t cs st1 = (qs, r)"
    from scan_elements_cap [OF cycle_body_eq(1) [OF b] Cons.prems(3)]
    have "int (length (url_crawled st1)) \<le> m" .
    with Cons.IH [OF r Cons.prems(2)] show ?thesis by simp
  qed
qed

lemma collect_not_skipped:
  "collect wl kw m t cs st = (out, r) \<Longrightarrow> p \<in> set out \<Longrightarrow> \<not> skip_post wl (p_link p)"
proof (induction cs arbitrary: st out)
  case Nil
  then show ?case by simp
next
  case (Cons c cs)
  from collect_Cons [OF Cons.prems(1)] show ?case
  proof (elim disjE conjE exE)
    assume "out = []"
    with Cons.prems show ?thesis by simp
  next
    fix st1 assume "cycle_body wl kw m t c st = (out, st1, True)"
    from scan_elements_not_skipped [OF cycle_body_eq(1) [OF this] Cons.prems(2)]
    show ?thesis .
  next
    fix ps st1 qs
    assume b: "cycle_body wl kw m t c st = (ps, st1, False)"
      and r: "collect wl kw m t cs st1 = (qs, r)" and o: "out = ps @ qs"
    from o Cons.prems(2) have "p \<in> set ps \<or> p \<in> set qs" by auto
    with scan_elements_not_skipped [OF cycle_body_eq(1) [OF b]] Cons.IH [OF r]
    show ?thesis by blast
  qed
qed

lemma scan_elements_origin:
  "scan_elements wl kw m es uc = (ps, uc') \<Longrightarrow> p \<in> set ps
     \<Longrightarrow> \<exists>e \<in> set es. extract_post kw e = Some p"
proof (induction es arbitrary: uc ps)
  case Nil
  then show ?case by simp
next
  case (Cons e es)
  from scan_elements_Cons [OF Cons.prems(1)] Cons.prems(2) Cons.IH show ?case
    by (elim disjE conjE exE) (simp, fastforce, fastforce)
qed

lemma collect_origin:
  "collect wl kw m t cs st = (out, r) \<Longrightarrow> p \<in> set out
     \<Longrightarrow> \<exists>c \<in> set cs. \<exists>e \<in> set (elements c). extract_post kw e = Some p"
proof (induction cs arbitrary: st out)
  case Nil
  then show ?case by simp
next
  case (Cons c cs)
  from collect_Cons [OF Cons.prems(1)] show ?case
  proof (elim disjE conjE exE)
    assume "out = []"
    with Cons.prems show ?thesis by simp
  next
    fix st1 assume "cycle_body wl kw m t c st = (out, st1, True)"
    from scan_elements_origin [OF cycle_body_eq(1) [OF this] Cons.prems(2)]
    show ?thesis by simp
  next
    fix ps st1 qs
    assume b: "cycle_body wl kw m t c st = (ps, st1, False)"
      and r: "collect wl kw m t cs st1 = (qs, r)" and o: "out = ps @ qs"
    from o Cons.prems(2) have "p \<in> set ps \<or> p \<in> set qs" by auto
    with scan_elements_origin [OF cycle_body_eq(1) [OF b]] Cons.IH [OF r]
    show ?thesis by fastforce
  qed
qed

text \<open>The equations that run the program's definitions on a concrete session.\<close>

lemmas run_simps = scrape_posts_def whitelist_of_def timeout_of_def truthy_def
  load_white_list_def cycle_body_def while_cond_def process_elem_def extract_post_def
  extract_link_date_name_def admit_def skip_post_def strip_def space1_def space2_def space3_def

lemma distinct_map_filter_le_1:
  "distinct (map f xs) \<Longrightarrow> length (filter (\<lambda>x. f x = a) xs) \<le> 1"
proof (induction xs)
  case Nil
  then show ?case by simp
next
  case (Cons x xs)
  show ?case
  proof (cases "f x = a")
    case True
    with Cons.prems have "\<forall>y \<in> set xs. f y \<noteq> a" by (auto simp: image_iff)
    then have "filter (\<lambda>x. f x = a) xs = []" by (simp add: filter_empty_conv)
    with True show ?thesis by simp
  next
    case False
    with Cons show ?thesis by simp
  qed
qed

lemma scrape_posts_links:
  assumes "scrape_posts S kw m = (out, r)" and "end_state r = Some st'"
  shows "url_crawled st' = map p_link out"
proof -
  from assms have ok: "search_ok S" by (auto simp: scrape_posts_def split: if_splits)
  with assms(1) collect_crawled [OF _ assms(2)] show ?thesis
    by (fastforce simp: scrape_posts_def)
qed

lemma scrape_posts_end: "search_ok S \<Longrightarrow> \<exists>st'. end_state (snd (scrape_posts S kw m)) = Some st'"
  using collect_end_state [OF prod.collapse [symmetric]] by (simp add: scrape_posts_def)

lemma scrape_posts_distinct: "distinct (map p_link (fst (scrape_posts S kw m)))"
proof (cases "search_ok S")
  case False
  then show ?thesis by (simp add: scrape_posts_def)
next
  case True
  obtain out r where o: "scrape_posts S kw m = (out, r)" by (cases "scrape_posts S kw m")
  with scrape_posts_end [OF True, of kw m] obtain st' where e: "end_state r = Some st'" by auto
  from o True have c: "collect (whitelist_of S) kw m (timeout_of S m) (cycles S)
     \<lparr>url_crawled = [], last_height = first_height S, scroll_attempts = 0\<rparr> = (out, r)"
    by (simp add: scrape_posts_def)
  from collect_distinct [OF c e] have "distinct (url_crawled st')" by simp
  with scrape_posts_links [OF o e] o show ?thesis by simp
qed

lemma scrape_posts_length:
  assumes "0 \<le> m"
  shows "int (length (fst (scrape_posts S kw m))) \<le> m"
proof (cases "search_ok S")
  case False
  with assms show ?thesis by (simp add: scrape_posts_def)
next
  case True
  obtain out r where o: "scrape_posts S kw m = (out, r)" by (cases "scrape_posts S kw m")
  with scrape_posts_end [OF True, of kw m] obtain st' where e: "end_state r = Some st'" by auto
  from o True have c: "collect (whitelist_of S) kw m (timeout_of S m) (cycles S)
     \<lparr>url_crawled = [], last_height = first_height S, scroll_attempts = 0\<rparr> = (out, r)"
    by (simp add: scrape_posts_def)
  from collect_cap [OF c e] assms have "int (length (url_crawled st')) \<le> m" by simp
  with scrape_posts_links [OF o e] o show ?thesis by simp
qed

lemma collect_at_cap:
  "max_posts \<le> int (length (url_crawled st)) \<Longrightarrow> collect wl kw max_posts t cs st = ([], Done st)"
  by (cases cs) (simp_all add: while_cond_def)

lemma scan_elements_at_cap:
  "max_posts \<le> int (length crawled) \<Longrightarrow> scan_elements wl kw max_posts es crawled = ([], crawled)"
  by (cases es) simp_all

text \<open>
  Claim C1. A call with cap \<open>max_posts\<close> (a count, so not negative) yields at most
  \<open>max_posts\<close> records. Once \<^verbatim>\<open>url_crawled\<close> holds \<open>max_posts\<close> entries nothing more is
  yielded: the \<^verbatim>\<open>while\<close> loop is left at its condition (line 236) and the \<^verbatim>\<open>for\<close> loop
  over the visible elements is left at line 241, whatever elements remain.
\<close>
theorem scrape_posts_cap:
  "(0 \<le> max_posts \<longrightarrow> int (length (fst (scrape_posts S kw max_posts))) \<le> max_posts) \<and>
   (max_posts \<le> int (length (url_crawled st)) \<longrightarrow>
      collect wl kw max_posts t cs st = ([], Done st)) \<and>
   (max_posts \<le> int (length crawled) \<longrightarrow>
      scan_elements wl kw max_posts es crawled = ([], crawled))"
  using scrape_posts_length collect_at_cap scan_elements_at_cap by blast

theorem scrape_posts_cap_witness:
  "(0::int) \<le> 1 \<and>
   int (length (fst (scrape_posts
      (session_of None [one_cycle [elem_full ''a'' ''u1'', elem_full ''b'' ''u2''] 7 1]) ''k'' 1))) \<le> 1 \<and>
   map p_link (fst (scrape_posts
      (session_of None [one_cycle [elem_full ''a'' ''u1'', elem_full ''b'' ''u2''] 7 1]) ''k'' 1))
     = [Some ''u1''] \<and>
   (1::int) \<le> int (length (url_crawled \<lparr>url_crawled = [Some ''u1''], last_height = 7, scroll_attempts = 0\<rparr>)) \<and>
   collect [] ''k'' 1 5 [one_cycle [elem_full ''b'' ''u2''] 7 1]
      \<lparr>url_crawled = [Some ''u1''], last_height = 7, scroll_attempts = 0\<rparr>
     = ([], Done \<lparr>url_crawled = [Some ''u1''], last_height = 7, scroll_attempts = 0\<rparr>) \<and>
   (1::int) \<le> int (length [Some ''u1'']) \<and>
   scan_elements [] ''k'' 1 [elem_full ''b'' ''u2''] [Some ''u1''] = ([], [Some ''u1''])"
  using scrape_posts_cap [of 1
      "session_of None [one_cycle [elem_full ''a'' ''u1'', elem_full ''b'' ''u2''] 7 1]" "''k''"
      "\<lparr>url_crawled = [Some ''u1''], last_height = 7, scroll_attempts = 0\<rparr>"
      "[]" 5 "[one_cycle [elem_full ''b'' ''u2''] 7 1]" "[Some ''u1'']" "[elem_full ''b'' ''u2'']"]
  by (simp add: run_simps elem_full_def one_cycle_def session_of_def)

lemma process_elem_duplicate:
  "extract_post kw e = Some p \<Longrightarrow> p_link p \<in> set crawled
     \<Longrightarrow> process_elem wl kw crawled e = (None, crawled)"
  by (simp add: process_elem_def admit_def)

text \<open>
  Claim C2. The links of the records yielded by one call are pairwise distinct (absent and
  empty links included, so the non-empty ones in particular). An extracted record whose link
  is already in \<^verbatim>\<open>url_crawled\<close> is dropped and leaves the list unchanged. Each call
  starts from an empty list, so two keywords of one run can both yield the same link.
\<close>
theorem links_distinct_per_keyword:
  "distinct (map p_link (fst (scrape_posts S kw max_posts))) \<and>
   (extract_post kw e = Some p \<and> p_link p \<in> set crawled \<longrightarrow>
      process_elem wl kw crawled e = (None, crawled)) \<and>
   map p_link (crawl_keywords
      [(''a'', session_of None [one_cycle [elem_full ''x'' ''u1''] 7 1]),
       (''b'', session_of None [one_cycle [elem_full ''x'' ''u1''] 7 1])] 15)
     = [Some ''u1'', Some ''u1'']"
proof (intro conjI)
  show "distinct (map p_link (fst (scrape_posts S kw max_posts)))"
    by (rule scrape_posts_distinct)
  show "extract_post kw e = Some p \<and> p_link p \<in> set crawled \<longrightarrow>
      process_elem wl kw crawled e = (None, crawled)"
    using process_elem_duplicate by blast
  show "map p_link (crawl_keywords
      [(''a'', session_of None [one_cycle [elem_full ''x'' ''u1''] 7 1]),
       (''b'', session_of None [one_cycle [elem_full ''x'' ''u1''] 7 1])] 15)
     = [Some ''u1'', Some ''u1'']"
    by (simp add: run_simps elem_full_def one_cycle_def session_of_def crawl_keywords_def)
qed

theorem links_distinct_per_keyword_witness:
  "distinct (map p_link (fst (scrape_posts
      (session_of None [one_cycle [elem_full ''x'' ''u1'', elem_full ''y'' ''u1''] 7 1]) ''k'' 15))) \<and>
   map p_text (fst (scrape_posts
      (session_of None [one_cycle [elem_full ''x'' ''u1'', elem_full ''y'' ''u1''] 7 1]) ''k'' 15))
     = [''x''] \<and>
   extract_post ''k'' (elem_full ''y'' ''u1'') = Some (twin_post\<lparr>p_text := ''y''\<rparr>) \<and>
   p_link (twin_post\<lparr>p_text := ''y''\<rparr>) \<in> set [Some ''u1''] \<and>
   process_elem [] ''k'' [Some ''u1''] (elem_full ''y'' ''u1'') = (None, [Some ''u1''])"
proof -
  have e: "extract_post ''k'' (elem_full ''y'' ''u1'') = Some (twin_post\<lparr>p_text := ''y''\<rparr>)"
    by (simp add: run_simps elem_full_def twin_post_def)
  have l: "p_link (twin_post\<lparr>p_text := ''y''\<rparr>) \<in> set [Some ''u1'']"
    by (simp add: twin_post_def)
  have t: "map p_text (fst (scrape_posts
      (session_of None [one_cycle [elem_full ''x'' ''u1'', elem_full ''y'' ''u1''] 7 1]) ''k'' 15))
     = [''x'']"
    by (simp add: run_simps elem_full_def one_cycle_def session_of_def)
  from links_distinct_per_keyword [of
      "session_of None [one_cycle [elem_full ''x'' ''u1'', elem_full ''y'' ''u1''] 7 1]" "''k''" 15
      "elem_full ''y'' ''u1''" "twin_post\<lparr>p_text := ''y''\<rparr>" "[Some ''u1'']" "[]"]
  show ?thesis using e l t by simp
qed

lemma scrape_posts_not_skipped:
  "p \<in> set (fst (scrape_posts S kw m)) \<Longrightarrow> \<not> skip_post (whitelist_of S) (p_link p)"
proof (cases "search_ok S")
  case False
  assume "p \<in> set (fst (scrape_posts S kw m))"
  with False show ?thesis by (simp add: scrape_posts_def)
next
  case True
  assume p: "p \<in> set (fst (scrape_posts S kw m))"
  obtain out r where c: "collect (whitelist_of S) kw m (timeout_of S m) (cycles S)
     \<lparr>url_crawled = [], last_height = first_height S, scroll_attempts = 0\<rparr> = (out, r)"
    by (cases "collect (whitelist_of S) kw m (timeout_of S m) (cycles S)
     \<lparr>url_crawled = [], last_height = first_height S, scroll_attempts = 0\<rparr>")
  with True p have "p \<in> set out" by (simp add: scrape_posts_def)
  from collect_not_skipped [OF c this] show ?thesis .
qed

lemma skip_post_iff:
  "skip_post wl (Some u) = (u \<noteq> [] \<and> (\<exists>entry \<in> set wl. str_contains entry u))"
  by (simp add: skip_post_def)

lemma process_elem_whitelisted:
  "extract_post kw e = Some q \<Longrightarrow> p_link q = Some v \<Longrightarrow> v \<noteq> [] \<Longrightarrow> entry \<in> set wl
     \<Longrightarrow> str_contains entry v \<Longrightarrow> process_elem wl kw crawled e = (None, crawled)"
  by (auto simp: process_elem_def admit_def skip_post_def)

text \<open>
  Claim C3. No yielded record has a non-empty link that contains a whitelist entry as a
  substring. An extracted record whose non-empty link contains an entry is dropped with
  \<^verbatim>\<open>url_crawled\<close> unchanged.
\<close>
theorem yielded_links_avoid_whitelist:
  "(p \<in> set (fst (scrape_posts S kw max_posts)) \<and> p_link p = Some u \<and> u \<noteq> []
      \<and> entry \<in> set (whitelist_of S) \<longrightarrow> \<not> str_contains entry u) \<and>
   (extract_post kw e = Some q \<and> p_link q = Some v \<and> v \<noteq> [] \<and> entry' \<in> set wl
      \<and> str_contains entry' v \<longrightarrow> process_elem wl kw crawled e = (None, crawled))"
proof (intro conjI impI)
  assume a: "p \<in> set (fst (scrape_posts S kw max_posts)) \<and> p_link p = Some u \<and> u \<noteq> []
      \<and> entry \<in> set (whitelist_of S)"
  with scrape_posts_not_skipped [of p S kw max_posts]
  have "\<not> skip_post (whitelist_of S) (Some u)" by simp
  with a show "\<not> str_contains entry u" by (auto simp: skip_post_iff)
next
  assume "extract_post kw e = Some q \<and> p_link q = Some v \<and> v \<noteq> [] \<and> entry' \<in> set wl
      \<and> str_contains entry' v"
  then show "process_elem wl kw crawled e = (None, crawled)"
    using process_elem_whitelisted by blast
qed

lemma adtracker_run: "fst (scrape_posts adtracker_session ''k'' 15) = [news_post]"
  by (simp add: run_simps elem_full_def one_cycle_def session_of_def adtracker_session_def
      news_post_def)

lemma adtracker_whitelist: "whitelist_of adtracker_session = [''adtracker.example'', ''spam.example'']"
  by (simp add: run_simps session_of_def adtracker_session_def)

theorem yielded_links_avoid_whitelist_witness:
  "news_post \<in> set (fst (scrape_posts adtracker_session ''k'' 15)) \<and>
   p_link news_post = Some ''https://fb.example/post/2'' \<and>
   ''https://fb.example/post/2'' \<noteq> [] \<and>
   ''adtracker.example'' \<in> set (whitelist_of adtracker_session) \<and>
   \<not> str_contains ''adtracker.example'' ''https://fb.example/post/2'' \<and>
   extract_post ''k'' (elem_full ''ad'' ''https://adtracker.example/post/1'') = Some ad_post \<and>
   p_link ad_post = Some ''https://adtracker.example/post/1'' \<and>
   ''https://adtracker.example/post/1'' \<noteq> [] \<and>
   ''adtracker.example'' \<in> set [''adtracker.example'', ''spam.example''] \<and>
   str_contains ''adtracker.example'' ''https://adtracker.example/post/1'' \<and>
   process_elem [''adtracker.example'', ''spam.example''] ''k'' []
     (elem_full ''ad'' ''https://adtracker.example/post/1'') = (None, [])"
proof -
  have e: "extract_post ''k'' (elem_full ''ad'' ''https://adtracker.example/post/1'') = Some ad_post"
    by (simp add: run_simps elem_full_def ad_post_def)
  have c: "str_contains ''adtracker.example'' ''https://adtracker.example/post/1''"
    by simp
  have l: "p_link ad_post = Some ''https://adtracker.example/post/1''"
    "p_link news_post = Some ''https://fb.example/post/2''"
    by (simp_all add: ad_post_def news_post_def)
  from yielded_links_avoid_whitelist [of news_post adtracker_session "''k''" 15
      "''https://fb.example/post/2''" "''adtracker.example''"
      "elem_full ''ad'' ''https://adtracker.example/post/1''" ad_post
      "''https://adtracker.example/post/1''" "''adtracker.example''"
      "[''adtracker.example'', ''spam.example'']" "[]"]
  show ?thesis using e c l by (simp add: adtracker_run adtracker_whitelist)
qed

lemma scrape_posts_origin:
  "p \<in> set (fst (scrape_posts S kw m))
     \<Longrightarrow> \<exists>c \<in> set (cycles S). \<exists>e \<in> set (elements c). extract_post kw e = Some p"
proof (cases "search_ok S")
  case False
  assume "p \<in> set (fst (scrape_posts S kw m))"
  with False show ?thesis by (simp add: scrape_posts_def)
next
  case True
  assume p: "p \<in> set (fst (scrape_posts S kw m))"
  obtain out r where c: "collect (whitelist_of S) kw m (timeout_of S m) (cycles S)
     \<lparr>url_crawled = [], last_height = first_height S, scroll_attempts = 0\<rparr> = (out, r)"
    by (cases "collect (whitelist_of S) kw m (timeout_of S m) (cycles S)
     \<lparr>url_crawled = [], last_height = first_height S, scroll_attempts = 0\<rparr>")
  with True p have "p \<in> set out" by (simp add: scrape_posts_def)
  from collect_origin [OF c this] show ?thesis .
qed

lemma process_elem_linkless:
  "extract_post kw e = Some p \<Longrightarrow> p_link p = None \<Longrightarrow>
     \<not> skip_post wl (p_link p) \<and>
     process_elem wl kw crawled e =
       (if None \<in> set crawled then (None, crawled) else (Some p, crawled @ [None]))"
  by (simp add: process_elem_def admit_def skip_post_def)

text \<open>
  Claim C4, as amended. An extracted record whose link is absent always passes the whitelist
  test. It passes the duplicate test, and is yielded, exactly when no record with an absent
  link was yielded before it in the same call: line 333 appends the absent link to
  \<^verbatim>\<open>url_crawled\<close> like any other, and line 329 finds it there.
\<close>
theorem linkless_admitted_once:
  "extract_post kw e = Some p \<and> p_link p = None \<longrightarrow>
     \<not> skip_post wl (p_link p) \<and>
     process_elem wl kw crawled e =
       (if None \<in> set crawled then (None, crawled) else (Some p, crawled @ [None]))"
  using process_elem_linkless by blast

theorem linkless_admitted_once_witness:
  "extract_post ''k'' (elem_bare ''a'') = Some (bare_post ''a'') \<and>
   p_link (bare_post ''a'') = None \<and>
   \<not> skip_post [''a''] (p_link (bare_post ''a'')) \<and>
   process_elem [''a''] ''k'' [Some ''u1''] (elem_bare ''a'')
     = (Some (bare_post ''a''), [Some ''u1'', None]) \<and>
   process_elem [''a''] ''k'' [Some ''u1'', None] (elem_bare ''a'') = (None, [Some ''u1'', None])"
proof -
  have e: "extract_post ''k'' (elem_bare ''a'') = Some (bare_post ''a'')"
    by (simp add: run_simps elem_bare_def bare_post_def)
  have l: "p_link (bare_post ''a'') = None"
    by (simp add: bare_post_def)
  from linkless_admitted_once [of "''k''" "elem_bare ''a''" "bare_post ''a''" "[''a'']" "[Some ''u1'']"]
    linkless_admitted_once [of "''k''" "elem_bare ''a''" "bare_post ''a''" "[''a'']" "[Some ''u1'', None]"]
  show ?thesis using e l by simp
qed

text \<open>
  The claim as stated fails: of two posts that are both extracted with an absent link, only
  the first is yielded.
\<close>
theorem linkless_always_admitted_counterexample:
  "extract_post ''k'' (elem_bare ''b'') = Some (bare_post ''b'') \<and>
   p_link (bare_post ''b'') = None \<and>
   fst (scrape_posts (session_of None [one_cycle [elem_bare ''a'', elem_bare ''b''] 7 1]) ''k'' 15)
     = [bare_post ''a'']"
  by (simp add: run_simps elem_bare_def one_cycle_def session_of_def bare_post_def)

lemma admit_linkless_new:
  "p_link p = None \<Longrightarrow> None \<notin> set crawled \<Longrightarrow> admit wl crawled p = (Some p, crawled @ [None])"
  by (simp add: admit_def skip_post_def)

lemma admit_linkless_seen:
  "p_link p = None \<Longrightarrow> None \<in> set crawled \<Longrightarrow> admit wl crawled p = (None, crawled)"
  by (simp add: admit_def skip_post_def)

text \<open>
  Claim C10. One call yields at most one record with an absent link. Line 333 appends the
  absent link to \<^verbatim>\<open>url_crawled\<close>, which grows by one entry, and line 329 drops every
  later record with an absent link as a duplicate. The length of \<^verbatim>\<open>url_crawled\<close> is what lines
  236 and 241 compare with the cap, so the records with a link and the one without share it.
\<close>
theorem at_most_one_linkless:
  "length (filter (\<lambda>p. p_link p = None) (fst (scrape_posts S kw max_posts))) \<le> 1 \<and>
   (p_link p = None \<and> None \<notin> set crawled \<longrightarrow>
      admit wl crawled p = (Some p, crawled @ [None]) \<and>
      length (crawled @ [None]) = length crawled + 1) \<and>
   (p_link p = None \<and> None \<in> set crawled \<longrightarrow> admit wl crawled p = (None, crawled)) \<and>
   (0 \<le> max_posts \<longrightarrow>
      int (length (filter (\<lambda>p. p_link p \<noteq> None) (fst (scrape_posts S kw max_posts)))) +
      int (length (filter (\<lambda>p. p_link p = None) (fst (scrape_posts S kw max_posts)))) \<le> max_posts)"
proof (intro conjI impI)
  show "length (filter (\<lambda>p. p_link p = None) (fst (scrape_posts S kw max_posts))) \<le> 1"
    using scrape_posts_distinct by (rule distinct_map_filter_le_1)
next
  assume "p_link p = None \<and> None \<notin> set crawled"
  then show "admit wl crawled p = (Some p, crawled @ [None])" by (simp add: admit_linkless_new)
next
  show "length (crawled @ [None]) = length crawled + 1" by simp
next
  assume "p_link p = None \<and> None \<in> set crawled"
  then show "admit wl crawled p = (None, crawled)" by (simp add: admit_linkless_seen)
next
  assume "0 \<le> max_posts"
  from scrape_posts_length [OF this, of S kw]
    sum_length_filter_compl [of "\<lambda>p. p_link p \<noteq> None" "fst (scrape_posts S kw max_posts)"]
  show "int (length (filter (\<lambda>p. p_link p \<noteq> None) (fst (scrape_posts S kw max_posts)))) +
      int (length (filter (\<lambda>p. p_link p = None) (fst (scrape_posts S kw max_posts)))) \<le> max_posts"
    by simp
qed

lemma linkless_run:
  "fst (scrape_posts (session_of None
      [one_cycle [elem_bare ''a'', elem_bare ''b'', elem_full ''x'' ''u1'', elem_full ''y'' ''u2''] 7 1])
      ''k'' 2) = [bare_post ''a'', twin_post]"
  by (simp add: run_simps elem_bare_def elem_full_def one_cycle_def session_of_def bare_post_def
      twin_post_def)

theorem at_most_one_linkless_witness:
  "fst (scrape_posts (session_of None
      [one_cycle [elem_bare ''a'', elem_bare ''b'', elem_full ''x'' ''u1'', elem_full ''y'' ''u2''] 7 1])
      ''k'' 2) = [bare_post ''a'', twin_post] \<and>
   length (filter (\<lambda>p. p_link p = None) [bare_post ''a'', twin_post]) \<le> 1 \<and>
   p_link (bare_post ''b'') = None \<and> None \<notin> set [Some ''u1''] \<and>
   admit [] [Some ''u1''] (bare_post ''b'') = (Some (bare_post ''b''), [Some ''u1'', None]) \<and>
   None \<in> set [None, Some ''u1''] \<and>
   admit [] [None, Some ''u1''] (bare_post ''b'') = (None, [None, Some ''u1'']) \<and>
   (0::int) \<le> 2 \<and>
   int (length (filter (\<lambda>p. p_link p \<noteq> None) [bare_post ''a'', twin_post])) +
   int (length (filter (\<lambda>p. p_link p = None) [bare_post ''a'', twin_post])) \<le> 2"
proof -
  have l: "p_link (bare_post ''b'') = None" by (simp add: bare_post_def)
  from at_most_one_linkless [of "session_of None
      [one_cycle [elem_bare ''a'', elem_bare ''b'', elem_full ''x'' ''u1'', elem_full ''y'' ''u2''] 7 1]"
      "''k''" 2 "bare_post ''b''" "[Some ''u1'']" "[]"]
    at_most_one_linkless [of "session_of None
      [one_cycle [elem_bare ''a'', elem_bare ''b'', elem_full ''x'' ''u1'', elem_full ''y'' ''u2''] 7 1]"
      "''k''" 2 "bare_post ''b''" "[None, Some ''u1'']" "[]"]
  show ?thesis using l by (simp add: linkless_run)
qed

lemma extract_post_Some:
  assumes "story_message e = Some s" and "None \<notin> set (img_src e)"
  shows "extract_post kw e =
     Some \<lparr>p_name = poster_name (fst (extract_link_date_name e)),
           p_text = strip s,
           p_link = link (fst (extract_link_date_name e)),
           p_date = post_date (fst (extract_link_date_name e)),
           p_images = filter (\<lambda>src. case src of None \<Rightarrow> False
                                | Some u \<Rightarrow> \<not> str_contains ''emoji.php'' u) (img_src e),
           p_videos = video_href e,
           p_keyword = kw\<rparr>"
  using assms by (simp add: extract_post_def Let_def)

lemma extract_link_date_name_eq:
  "extract_link_date_name e =
     (\<lparr>link = (if date_read e then clicked_url e else None),
       post_date = (if date_read e then map_option strip (date_tooltip e) else None),
       poster_name = (if date_read e \<and> clicked_url e \<noteq> None
                      then (case name_primary e of Some n \<Rightarrow> Some n | None \<Rightarrow> name_fallback e)
                      else None)\<rparr>,
      \<not> date_read e \<or> clicked_url e = None \<or>
        (name_primary e = None \<and> name_fallback e = None) \<or> \<not> back_ok e)"
  by (simp add: extract_link_date_name_def date_read_def Let_def split: option.splits)

text \<open>
  Claim C8, as amended. For every element whose story body was found (and whose image
  sources could all be read), an exception in the link, date and name sub-step does not
  discard the element: the record is built with the text, images and videos already
  collected and is handed to the tests of lines 318-334. The locals assigned before the
  raising call keep their values: the date is the stripped tooltip text once lines 274-298
  succeeded, the link is the new location once the click of lines 301-304 succeeded as
  well, the name is the text of the first selector that matched. Those not yet assigned are
  absent, so all three are absent when the exception comes before line 298. The sub-step
  raises when the date is not read, the click leads nowhere, neither name selector matches
  or the way back fails.
\<close>
theorem partial_extraction_keeps_record:
  "(story_message e = Some s \<and> None \<notin> set (img_src e) \<longrightarrow>
     (\<exists>p. extract_post kw e = Some p \<and>
          process_elem wl kw crawled e = admit wl crawled p \<and>
          p_text p = strip s \<and>
          p_images p = filter (\<lambda>src. case src of None \<Rightarrow> False
                                 | Some u \<Rightarrow> \<not> str_contains ''emoji.php'' u) (img_src e) \<and>
          p_videos p = video_href e \<and>
          p_date p = (if date_read e then map_option strip (date_tooltip e) else None) \<and>
          p_link p = (if date_read e then clicked_url e else None) \<and>
          p_name p = (if date_read e \<and> clicked_url e \<noteq> None
                      then (case name_primary e of Some n \<Rightarrow> Some n | None \<Rightarrow> name_fallback e)
                      else None))) \<and>
   snd (extract_link_date_name e) =
     (\<not> date_read e \<or> clicked_url e = None \<or>
        (name_primary e = None \<and> name_fallback e = None) \<or> \<not> back_ok e)"
proof (rule conjI)
  show "story_message e = Some s \<and> None \<notin> set (img_src e) \<longrightarrow>
     (\<exists>p. extract_post kw e = Some p \<and>
          process_elem wl kw crawled e = admit wl crawled p \<and>
          p_text p = strip s \<and>
          p_images p = filter (\<lambda>src. case src of None \<Rightarrow> False
                                 | Some u \<Rightarrow> \<not> str_contains ''emoji.php'' u) (img_src e) \<and>
          p_videos p = video_href e \<and>
          p_date p = (if date_read e then map_option strip (date_tooltip e) else None) \<and>
          p_link p = (if date_read e then clicked_url e else None) \<and>
          p_name p = (if date_read e \<and> clicked_url e \<noteq> None
                      then (case name_primary e of Some n \<Rightarrow> Some n | None \<Rightarrow> name_fallback e)
                      else None))"
  proof
    assume "story_message e = Some s \<and> None \<notin> set (img_src e)"
    then have x: "extract_post kw e =
       Some \<lparr>p_name = poster_name (fst (extract_link_date_name e)),
             p_text = strip s,
             p_link = link (fst (extract_link_date_name e)),
             p_date = post_date (fst (extract_link_date_name e)),
             p_images = filter (\<lambda>src. case src of None \<Rightarrow> False
                                  | Some u \<Rightarrow> \<not> str_contains ''emoji.php'' u) (img_src e),
             p_videos = video_href e,
             p_keyword = kw\<rparr>" (is "_ = Some ?p")
      by (simp add: extract_post_Some)
    have "process_elem wl kw crawled e = admit wl crawled ?p"
      by (simp add: process_elem_def x)
    with x show "\<exists>p. extract_post kw e = Some p \<and>
          process_elem wl kw crawled e = admit wl crawled p \<and>
          p_text p = strip s \<and>
          p_images p = filter (\<lambda>src. case src of None \<Rightarrow> False
                                 | Some u \<Rightarrow> \<not> str_contains ''emoji.php'' u) (img_src e) \<and>
          p_videos p = video_href e \<and>
          p_date p = (if date_read e then map_option strip (date_tooltip e) else None) \<and>
          p_link p = (if date_read e then clicked_url e else None) \<and>
          p_name p = (if date_read e \<and> clicked_url e \<noteq> None
                      then (case name_primary e of Some n \<Rightarrow> Some n | None \<Rightarrow> name_fallback e)
                      else None)"
      by (intro exI [of _ ?p]) (simp add: extract_link_date_name_eq)
  qed
next
  show "snd (extract_link_date_name e) =
     (\<not> date_read e \<or> clicked_url e = None \<or>
        (name_primary e = None \<and> name_fallback e = None) \<or> \<not> back_ok e)"
    by (simp add: extract_link_date_name_eq)
qed

text \<open>
  The claim as stated fails: the click of line 301 raises after line 298 has assigned the
  date, and the record keeps the date.
\<close>
theorem partial_extraction_counterexample:
  "story_message elem_click_fails = Some '' hello '' \<and>
   extract_link_date_name elem_click_fails
     = (\<lparr>link = None, post_date = Some ''1 h'', poster_name = None\<rparr>, True) \<and>
   fst (scrape_posts (session_of None [one_cycle [elem_click_fails] 7 1]) ''k'' 15)
     = [\<lparr>p_name = None, p_text = ''hello'', p_link = None, p_date = Some ''1 h'',
         p_images = [], p_videos = [], p_keyword = ''k''\<rparr>]"
  by (simp add: run_simps elem_click_fails_def elem_full_def one_cycle_def session_of_def)

theorem partial_extraction_keeps_record_witness:
  "story_message elem_click_fails = Some '' hello '' \<and>
   None \<notin> set (img_src elem_click_fails) \<and>
   date_read elem_click_fails \<and>
   clicked_url elem_click_fails = None \<and>
   snd (extract_link_date_name elem_click_fails) \<and>
   (\<exists>p. extract_post ''k'' elem_click_fails = Some p \<and>
        process_elem [] ''k'' [] elem_click_fails = admit [] [] p \<and>
        p_text p = ''hello'' \<and> p_images p = [] \<and> p_videos p = [] \<and>
        p_date p = Some ''1 h'' \<and> p_link p = None \<and> p_name p = None)"
proof -
  have h: "story_message elem_click_fails = Some '' hello '' \<and>
      None \<notin> set (img_src elem_click_fails)"
    by (simp add: elem_click_fails_def elem_full_def)
  have d: "date_read elem_click_fails" "clicked_url elem_click_fails = None"
    "date_tooltip elem_click_fails = Some ''1 h''" "img_src elem_click_fails = []"
    "video_href elem_click_fails = []"
    by (simp_all add: date_read_def run_simps elem_click_fails_def elem_full_def)
  have s: "strip '' hello '' = ''hello''" "strip ''1 h'' = ''1 h''"
    by (simp_all add: run_simps)
  note t = partial_extraction_keeps_record [of elem_click_fails "'' hello ''" "''k''" "[]" "[]"]
  from t [THEN conjunct2] d have r: "snd (extract_link_date_name elem_click_fails)" by simp
  from t [THEN conjunct1, THEN mp, OF h] obtain p
    where p: "extract_post ''k'' elem_click_fails = Some p"
      "process_elem [] ''k'' [] elem_click_fails = admit [] [] p"
      "p_text p = strip '' hello ''"
      "p_images p = filter (\<lambda>src. case src of None \<Rightarrow> False
                             | Some u \<Rightarrow> \<not> str_contains ''emoji.php'' u) (img_src elem_click_fails)"
      "p_videos p = video_href elem_click_fails"
      "p_date p = (if date_read elem_click_fails
                   then map_option strip (date_tooltip elem_click_fails) else None)"
      "p_link p = (if date_read elem_click_fails then clicked_url elem_click_fails else None)"
      "p_name p = (if date_read elem_click_fails \<and> clicked_url elem_click_fails \<noteq> None
                   then (case name_primary elem_click_fails of Some n \<Rightarrow> Some n
                         | None \<Rightarrow> name_fallback elem_click_fails)
                   else None)"
    by blast
  from p d s have "extract_post ''k'' elem_click_fails = Some p \<and>
      process_elem [] ''k'' [] elem_click_fails = admit [] [] p \<and>
      p_text p = ''hello'' \<and> p_images p = [] \<and> p_videos p = [] \<and>
      p_date p = Some ''1 h'' \<and> p_link p = None \<and> p_name p = None"
    by simp
  then have e: "\<exists>p. extract_post ''k'' elem_click_fails = Some p \<and>
      process_elem [] ''k'' [] elem_click_fails = admit [] [] p \<and>
      p_text p = ''hello'' \<and> p_images p = [] \<and> p_videos p = [] \<and>
      p_date p = Some ''1 h'' \<and> p_link p = None \<and> p_name p = None"
    by (rule exI)
  from h [THEN conjunct1] h [THEN conjunct2] d(1) d(2) r e show ?thesis by (intro conjI)
qed

lemma extract_post_media:
  assumes "extract_post kw e = Some p"
  shows "None \<notin> set (img_src e)"
    and "p_images p = filter (\<lambda>src. case src of None \<Rightarrow> False
                                | Some u \<Rightarrow> \<not> str_contains ''emoji.php'' u) (img_src e)"
    and "p_videos p = video_href e"
  using assms by (auto simp: extract_post_def Let_def split: option.splits if_splits)

text \<open>
  Claim C9, as amended. Every yielded record comes from a visible element. Its images are
  the \<^verbatim>\<open>src\<close> values of that element's images, in DOM order, without those that
  contain \<^verbatim>\<open>emoji.php\<close>; none of them is null, because a null \<^verbatim>\<open>src\<close> makes line 261
  raise and the element is skipped. Its videos are the \<^verbatim>\<open>href\<close> values as read, in DOM
  order. Nothing removes empty strings from either list or null entries from the videos.
\<close>
theorem yielded_media:
  "p \<in> set (fst (scrape_posts S kw max_posts)) \<longrightarrow>
     (\<exists>c \<in> set (cycles S). \<exists>e \<in> set (elements c).
        p_images p = filter (\<lambda>src. case src of None \<Rightarrow> False
                               | Some u \<Rightarrow> \<not> str_contains ''emoji.php'' u) (img_src e) \<and>
        p_videos p = video_href e) \<and>
     None \<notin> set (p_images p) \<and>
     (\<forall>u. Some u \<in> set (p_images p) \<longrightarrow> \<not> str_contains ''emoji.php'' u)"
proof
  assume "p \<in> set (fst (scrape_posts S kw max_posts))"
  from scrape_posts_origin [OF this] obtain c e
    where c: "c \<in> set (cycles S)" and e: "e \<in> set (elements c)"
      and x: "extract_post kw e = Some p" by blast
  note m = extract_post_media [OF x]
  from m(2) have "None \<notin> set (p_images p)" by auto
  moreover from m(2) have "\<forall>u. Some u \<in> set (p_images p) \<longrightarrow> \<not> str_contains ''emoji.php'' u"
    by auto
  ultimately show "(\<exists>c \<in> set (cycles S). \<exists>e \<in> set (elements c).
        p_images p = filter (\<lambda>src. case src of None \<Rightarrow> False
                               | Some u \<Rightarrow> \<not> str_contains ''emoji.php'' u) (img_src e) \<and>
        p_videos p = video_href e) \<and>
     None \<notin> set (p_images p) \<and>
     (\<forall>u. Some u \<in> set (p_images p) \<longrightarrow> \<not> str_contains ''emoji.php'' u)"
    using c e m(2,3) by blast
qed

lemma media_run: "fst (scrape_posts (session_of None [one_cycle [elem_media] 7 1]) ''k'' 15) = [media_post]"
  by (simp add: run_simps elem_media_def elem_full_def one_cycle_def session_of_def media_post_def)

theorem yielded_media_witness:
  "media_post \<in> set (fst (scrape_posts (session_of None [one_cycle [elem_media] 7 1]) ''k'' 15)) \<and>
   p_images media_post = [Some ''https://cdn.example/a.jpg'', Some []] \<and>
   None \<notin> set (p_images media_post) \<and>
   \<not> str_contains ''emoji.php'' ''https://cdn.example/a.jpg'' \<and>
   \<not> str_contains ''emoji.php'' []"
proof -
  have i: "p_images media_post = [Some ''https://cdn.example/a.jpg'', Some []]"
    by (simp add: media_post_def)
  have m: "media_post \<in> set (fst (scrape_posts (session_of None [one_cycle [elem_media] 7 1]) ''k'' 15))"
    by (simp add: media_run)
  note t = yielded_media [of media_post "session_of None [one_cycle [elem_media] 7 1]" "''k''" 15,
      THEN mp, OF m]
  from t have n: "None \<notin> set (p_images media_post)" by blast
  from t have "\<forall>u. Some u \<in> set (p_images media_post) \<longrightarrow> \<not> str_contains ''emoji.php'' u"
    by blast
  with i have "\<not> str_contains ''emoji.php'' ''https://cdn.example/a.jpg''"
    "\<not> str_contains ''emoji.php'' []" by simp_all
  with m i n show ?thesis by (intro conjI)
qed

text \<open>
  The claim as stated fails: an image whose \<^verbatim>\<open>src\<close> is the empty string and videos
  whose link has no \<^verbatim>\<open>href\<close>, or an empty one, reach the yielded record.
\<close>
theorem media_entries_counterexample:
  "map p_images (fst (scrape_posts (session_of None [one_cycle [elem_media] 7 1]) ''k'' 15))
     = [[Some ''https://cdn.example/a.jpg'', Some []]] \<and>
   map p_videos (fst (scrape_posts (session_of None [one_cycle [elem_media] 7 1]) ''k'' 15))
     = [[None, Some []]]"
  by (simp add: run_simps elem_media_def elem_full_def one_cycle_def session_of_def)

section \<open>The scroll counter and the deadline\<close>

lemma collect_left:
  "\<not> while_cond m st \<Longrightarrow> collect wl kw m t cs st = ([], Done st)"
  by (cases cs) simp_all

lemma collect_stalls:
  "5 - scroll_attempts st \<le> length run \<Longrightarrow> \<forall>c \<in> set run. new_height c = last_height st
     \<Longrightarrow> (\<exists>out st'. collect wl kw m t run st = (out, Done st')) \<and>
         collect wl kw m t (run @ rest) st = collect wl kw m t run st"
proof (induction run arbitrary: st)
  case Nil
  then have "\<not> while_cond m st" by (simp add: while_cond_def)
  then show ?case by (simp add: collect_left)
next
  case (Cons c run)
  show ?case
  proof (cases "while_cond m st")
    case False
    then show ?thesis by (simp add: collect_left)
  next
    case True
    obtain ps st1 left where b: "cycle_body wl kw m t c st = (ps, st1, left)"
      by (cases "cycle_body wl kw m t c st")
    show ?thesis
    proof (cases left)
      case True
      with \<open>while_cond m st\<close> b show ?thesis by simp
    next
      case False
      from Cons.prems(2) have h: "new_height c = last_height st" by simp
      with cycle_body_eq(2,4) [OF b] False
      have s: "scroll_attempts st1 = scroll_attempts st + 1" "last_height st1 = last_height st"
        by simp_all
      with Cons.prems have "5 - scroll_attempts st1 \<le> length run"
        "\<forall>c \<in> set run. new_height c = last_height st1" by simp_all
      from Cons.IH [OF this] \<open>while_cond m st\<close> b False show ?thesis
        by (auto split: prod.splits)
    qed
  qed
qed

lemma collect_stalls_later:
  "5 \<le> length run \<Longrightarrow> \<forall>c \<in> set run. new_height c = height_before (last_height st) pre
     \<Longrightarrow> (\<exists>out st'. collect wl kw m t (pre @ run) st = (out, Done st')) \<and>
         collect wl kw m t (pre @ run @ rest) st = collect wl kw m t (pre @ run) st"
proof (induction pre arbitrary: st)
  case Nil
  then show ?case using collect_stalls [of st run wl kw m t rest]
    by (simp add: height_before_def)
next
  case (Cons c pre)
  show ?case
  proof (cases "while_cond m st")
    case False
    then show ?thesis by (simp add: collect_left)
  next
    case True
    obtain ps st1 left where b: "cycle_body wl kw m t c st = (ps, st1, left)"
      by (cases "cycle_body wl kw m t c st")
    show ?thesis
    proof (cases left)
      case True
      with \<open>while_cond m st\<close> b show ?thesis by simp
    next
      case False
      with cycle_body_eq(4) [OF b] have "last_height st1 = new_height c" by simp
      with Cons.prems(2)
      have "\<forall>c \<in> set run. new_height c = height_before (last_height st1) pre"
        by (simp add: height_before_def split: if_splits)
      from Cons.IH [OF Cons.prems(1) this] \<open>while_cond m st\<close> b False show ?thesis
        by (auto split: prod.splits)
    qed
  qed
qed

lemma collect_attempts:
  "collect wl kw m t cs st = (out, r) \<Longrightarrow> end_state r = Some st' \<Longrightarrow>
     \<exists>pre run rest. cs = pre @ run @ rest \<and>
       (\<forall>c \<in> set run. new_height c = height_before (last_height st) pre) \<and>
       scroll_attempts st' = (if pre = [] then scroll_attempts st else 0) + length run"
proof (induction cs arbitrary: st out)
  case Nil
  then have "st' = st" by (auto split: if_splits)
  then show ?case by simp
next
  case (Cons c cs)
  from collect_Cons [OF Cons.prems(1)] show ?case
  proof (elim disjE conjE exE)
    assume "r = Done st"
    with Cons.prems(2) have "c # cs = [] @ [] @ (c # cs) \<and>
       (\<forall>c \<in> set []. new_height c = height_before (last_height st) []) \<and>
       scroll_attempts st' = (if [] = ([]::cycle list) then scroll_attempts st else 0) + length ([]::cycle list)"
      by simp
    then show ?thesis by blast
  next
    fix st1 assume b: "cycle_body wl kw m t c st = (out, st1, True)" and "r = Done st1"
    with Cons.prems(2) have e: "st' = st1" by simp
    show ?thesis
    proof (cases "new_height c = last_height st")
      case True
      with cycle_body_eq(2) [OF b] e have "c # cs = [] @ [c] @ cs \<and>
         (\<forall>c' \<in> set [c]. new_height c' = height_before (last_height st) []) \<and>
         scroll_attempts st' = (if [] = ([]::cycle list) then scroll_attempts st else 0) + length [c]"
        by (simp add: height_before_def)
      then show ?thesis by blast
    next
      case False
      with cycle_body_eq(2) [OF b] e have "c # cs = [c] @ [] @ cs \<and>
         (\<forall>c' \<in> set []. new_height c' = height_before (last_height st) [c]) \<and>
         scroll_attempts st' = (if [c] = [] then scroll_attempts st else 0) + length ([]::cycle list)"
        by simp
      then show ?thesis by blast
    qed
  next
    fix ps st1 qs
    assume b: "cycle_body wl kw m t c st = (ps, st1, False)"
      and r: "collect wl kw m t cs st1 = (qs, r)"
    from cycle_body_eq(4) [OF b] have h: "last_height st1 = new_height c" by simp
    from Cons.IH [OF r Cons.prems(2)] obtain pre run rest
      where d: "cs = pre @ run @ rest"
        and s: "\<forall>c \<in> set run. new_height c = height_before (last_height st1) pre"
        and n: "scroll_attempts st' = (if pre = [] then scroll_attempts st1 else 0) + length run"
      by blast
    show ?thesis
    proof (cases "pre = [] \<and> new_height c = last_height st")
      case True
      with d s n h cycle_body_eq(2) [OF b] have "c # cs = [] @ (c # run) @ rest \<and>
         (\<forall>c' \<in> set (c # run). new_height c' = height_before (last_height st) []) \<and>
         scroll_attempts st' = (if [] = ([]::cycle list) then scroll_attempts st else 0) + length (c # run)"
        by (simp add: height_before_def)
      then show ?thesis by blast
    next
      case False
      with d s n h cycle_body_eq(2) [OF b] have "c # cs = (c # pre) @ run @ rest \<and>
         (\<forall>c' \<in> set run. new_height c' = height_before (last_height st) (c # pre)) \<and>
         scroll_attempts st' = (if c # pre = [] then scroll_attempts st else 0) + length run"
        by (auto simp: height_before_def)
      then show ?thesis by blast
    qed
  qed
qed

lemma scrape_posts_cycles:
  "search_ok S \<Longrightarrow> scrape_posts (S\<lparr>cycles := cs\<rparr>) kw m =
     collect (whitelist_of S) kw m (timeout_of S m) cs
       \<lparr>url_crawled = [], last_height = first_height S, scroll_attempts = 0\<rparr>"
  by (simp add: scrape_posts_def whitelist_of_def timeout_of_def)

lemma scrape_posts_collect:
  "search_ok S \<Longrightarrow> scrape_posts S kw m =
     collect (whitelist_of S) kw m (timeout_of S m) (cycles S)
       \<lparr>url_crawled = [], last_height = first_height S, scroll_attempts = 0\<rparr>"
  by (simp add: scrape_posts_def)

lemma scrape_posts_stalls:
  assumes "search_ok S" and "cycles S = pre @ run @ rest" and "length run = 5"
    and "\<forall>c \<in> set run. new_height c = height_before (first_height S) pre"
  shows "(\<exists>out st'. scrape_posts S kw m = (out, Done st')) \<and>
         scrape_posts S kw m = scrape_posts (S\<lparr>cycles := pre @ run\<rparr>) kw m"
proof -
  let ?st = "\<lparr>url_crawled = [], last_height = first_height S, scroll_attempts = 0\<rparr>"
  from assms(3,4) have "5 \<le> length run"
    "\<forall>c \<in> set run. new_height c = height_before (last_height ?st) pre" by simp_all
  from collect_stalls_later [OF this, of "whitelist_of S" kw m "timeout_of S m" rest]
  show ?thesis
    by (simp add: scrape_posts_cycles [OF assms(1)] scrape_posts_collect [OF assms(1)] assms(2))
qed

lemma scrape_posts_attempts:
  assumes "scrape_posts S kw m = (out, r)" and "end_state r = Some st'"
  shows "\<exists>pre run rest. cycles S = pre @ run @ rest \<and> length run = scroll_attempts st' \<and>
           (\<forall>c \<in> set run. new_height c = height_before (first_height S) pre)"
proof -
  from assms have ok: "search_ok S" by (auto simp: scrape_posts_def split: if_splits)
  from assms(1) have "collect (whitelist_of S) kw m (timeout_of S m) (cycles S)
       \<lparr>url_crawled = [], last_height = first_height S, scroll_attempts = 0\<rparr> = (out, r)"
    by (simp add: scrape_posts_collect [OF ok])
  from collect_attempts [OF this assms(2)] obtain pre run rest
    where "cycles S = pre @ run @ rest"
      and "\<forall>c \<in> set run. new_height c = height_before (first_height S) pre"
      and "scroll_attempts st' = (if pre = [] then 0 else 0) + length run"
    by auto
  then have "cycles S = pre @ run @ rest \<and> length run = scroll_attempts st' \<and>
           (\<forall>c \<in> set run. new_height c = height_before (first_height S) pre)"
    by simp
  then show ?thesis by blast
qed


text \<open>
  Claim C5, as amended. The loop counts a pass as one without progress when the page height
  read after the scroll (line 348) equals the height recorded by the previous pass (line
  351). After five such passes in a row the call is over, whatever the browser would show
  next and however few records were yielded. At any point the counter equals the length of
  a run of consecutive such passes that has just ended, so it reaches 5 only after five of
  them; it is reset whenever the height differs. What the wait of lines 344-345 saw after
  the scroll does not enter.
\<close>
theorem five_stalls_end_crawl:
  "(search_ok S \<and> cycles S = pre @ run @ rest \<and> length run = 5 \<and>
      (\<forall>c \<in> set run. new_height c = height_before (first_height S) pre) \<longrightarrow>
        (\<exists>out st'. scrape_posts S kw max_posts = (out, Done st')) \<and>
        scrape_posts S kw max_posts = scrape_posts (S\<lparr>cycles := pre @ run\<rparr>) kw max_posts) \<and>
   (scrape_posts S kw max_posts = (out, r) \<and> end_state r = Some st' \<longrightarrow>
      (\<exists>pre run rest. cycles S = pre @ run @ rest \<and> length run = scroll_attempts st' \<and>
          (\<forall>c \<in> set run. new_height c = height_before (first_height S) pre)))"
proof (rule conjI; rule impI)
  assume "search_ok S \<and> cycles S = pre @ run @ rest \<and> length run = 5 \<and>
      (\<forall>c \<in> set run. new_height c = height_before (first_height S) pre)"
  then have "search_ok S" "cycles S = pre @ run @ rest" "length run = 5"
    "\<forall>c \<in> set run. new_height c = height_before (first_height S) pre"
    by simp_all
  then show "(\<exists>out st'. scrape_posts S kw max_posts = (out, Done st')) \<and>
        scrape_posts S kw max_posts = scrape_posts (S\<lparr>cycles := pre @ run\<rparr>) kw max_posts"
    by (rule scrape_posts_stalls)
next
  assume "scrape_posts S kw max_posts = (out, r) \<and> end_state r = Some st'"
  then have "scrape_posts S kw max_posts = (out, r)" "end_state r = Some st'"
    by simp_all
  then show "\<exists>pre run rest. cycles S = pre @ run @ rest \<and> length run = scroll_attempts st' \<and>
          (\<forall>c \<in> set run. new_height c = height_before (first_height S) pre)"
    by (rule scrape_posts_attempts)
qed

lemma stalled_run:
  "scrape_posts stalled_session ''k'' 15
     = ([], Done \<lparr>url_crawled = [], last_height = 0, scroll_attempts = 5\<rparr>)"
  by code_simp

theorem five_stalls_end_crawl_witness:
  "search_ok stalled_session \<and>
   cycles stalled_session
     = [] @ [scroll_only 0 0 0 0 1, scroll_only 0 0 0 0 1, scroll_only 0 0 0 0 1,
             scroll_only 0 0 0 0 1, scroll_only 0 0 0 0 1]
          @ [one_cycle [elem_full ''x'' ''u1''] 9 1] \<and>
   list_all (\<lambda>c. new_height c = height_before (first_height stalled_session) [])
     [scroll_only 0 0 0 0 1, scroll_only 0 0 0 0 1, scroll_only 0 0 0 0 1,
      scroll_only 0 0 0 0 1, scroll_only 0 0 0 0 1] \<and>
   scrape_posts stalled_session ''k'' 15
     = ([], Done \<lparr>url_crawled = [], last_height = 0, scroll_attempts = 5\<rparr>) \<and>
   scrape_posts stalled_session ''k'' 15
     = scrape_posts (stalled_session\<lparr>cycles :=
         [] @ [scroll_only 0 0 0 0 1, scroll_only 0 0 0 0 1, scroll_only 0 0 0 0 1,
               scroll_only 0 0 0 0 1, scroll_only 0 0 0 0 1]\<rparr>) ''k'' 15 \<and>
   (\<exists>pre run rest. cycles stalled_session = pre @ run @ rest \<and> length run = 5 \<and>
      (\<forall>c \<in> set run. new_height c = height_before (first_height stalled_session) pre))"
proof -
  let ?run = "[scroll_only 0 0 0 0 1, scroll_only 0 0 0 0 1, scroll_only 0 0 0 0 1,
               scroll_only 0 0 0 0 1, scroll_only 0 0 0 0 1]"
  let ?st = "\<lparr>url_crawled = [], last_height = 0, scroll_attempts = 5\<rparr>"
  have h: "search_ok stalled_session"
    "cycles stalled_session = [] @ ?run @ [one_cycle [elem_full ''x'' ''u1''] 9 1]"
    "\<forall>c \<in> set ?run. new_height c = height_before (first_height stalled_session) []"
    by (simp_all add: stalled_session_def session_of_def scroll_only_def height_before_def)
  have l: "length ?run = 5" by simp
  note t = five_stalls_end_crawl [where S = stalled_session and pre = "[]" and run = ?run
      and rest = "[one_cycle [elem_full ''x'' ''u1''] 9 1]" and kw = "''k''" and max_posts = 15
      and out = "[]" and r = "Done ?st" and st' = ?st]
  from h l have p1: "search_ok stalled_session \<and>
      cycles stalled_session = [] @ ?run @ [one_cycle [elem_full ''x'' ''u1''] 9 1] \<and>
      length ?run = 5 \<and>
      (\<forall>c \<in> set ?run. new_height c = height_before (first_height stalled_session) [])"
    by (intro conjI)
  from stalled_run have p2: "scrape_posts stalled_session ''k'' 15 = ([], Done ?st) \<and>
      end_state (Done ?st) = Some ?st"
    by simp
  from t [THEN conjunct1, THEN mp, OF p1]
  have a: "scrape_posts stalled_session ''k'' 15
     = scrape_posts (stalled_session\<lparr>cycles := [] @ ?run\<rparr>) ''k'' 15"
    by (rule conjunct2)
  from t [THEN conjunct2, THEN mp, OF p2]
  have b: "\<exists>pre run rest. cycles stalled_session = pre @ run @ rest \<and>
      length run = 5 \<and>
      (\<forall>c \<in> set run. new_height c = height_before (first_height stalled_session) pre)"
    by simp
  from h(3) have c: "list_all (\<lambda>c. new_height c = height_before (first_height stalled_session) []) ?run"
    by (simp only: list_all_iff)
  from h(1) h(2) c stalled_run a b show ?thesis by (intro conjI)
qed

text \<open>
  The claim as stated fails both ways when no growth is what the scroll step reports, that
  is neither the height nor the element count rising after the scroll. Five passes in a
  row without such growth, the page having grown during each scan, leave the counter at 0,
  and the sixth pass still yields a record. Five passes in a row with such growth, more
  elements at an unchanged height, bring the counter to 5 and end the call before the
  sixth pass.
\<close>
theorem five_no_growth_counterexample:
  "list_all (\<lambda>c. \<not> wait_until_growth c) grown_in_scan \<and>
   length grown_in_scan = 5 \<and>
   scrape_posts (session_of None (grown_in_scan @ [one_cycle [elem_full ''x'' ''u1''] 60 1])) ''k'' 15
     = ([twin_post], Pending \<lparr>url_crawled = [Some ''u1''], last_height = 60, scroll_attempts = 0\<rparr>) \<and>
   list_all wait_until_growth more_elements \<and>
   length more_elements = 5 \<and>
   scrape_posts (session_of None (more_elements @ [one_cycle [elem_full ''x'' ''u1''] 60 1])) ''k'' 15
     = ([], Done \<lparr>url_crawled = [], last_height = 0, scroll_attempts = 5\<rparr>)"
  by code_simp








lemma cycle_body_ignores_wait:
  "cycle_body wl kw m t (c\<lparr>initial_count := n, initial_height := h, grown_count := n'\<rparr>) st
     = cycle_body wl kw m t c st"
  by (simp add: cycle_body_def Let_def split: prod.splits)

text \<open>
  Claim C7, as amended. The counter of consecutive passes without progress is reset to zero
  whenever the page height read after the scroll (line 348) differs from the height
  recorded by the previous pass, and is incremented by one on every other pass. The number
  of visible elements and the height read before the wait of line 344 play no part in it.
\<close>
theorem scroll_attempts_step:
  "cycle_body wl kw max_posts t c st = (ps, st', left) \<longrightarrow>
     scroll_attempts st'
       = (if new_height c = last_height st then scroll_attempts st + 1 else 0) \<and>
     cycle_body wl kw max_posts t
       (c\<lparr>initial_count := n, initial_height := h, grown_count := n'\<rparr>) st = (ps, st', left)"
proof
  assume b: "cycle_body wl kw max_posts t c st = (ps, st', left)"
  from cycle_body_eq(2) [OF b]
  have "scroll_attempts st'
       = (if new_height c = last_height st then scroll_attempts st + 1 else 0)" .
  moreover from b have "cycle_body wl kw max_posts t
       (c\<lparr>initial_count := n, initial_height := h, grown_count := n'\<rparr>) st = (ps, st', left)"
    by (simp only: cycle_body_ignores_wait)
  ultimately show "scroll_attempts st'
       = (if new_height c = last_height st then scroll_attempts st + 1 else 0) \<and>
     cycle_body wl kw max_posts t
       (c\<lparr>initial_count := n, initial_height := h, grown_count := n'\<rparr>) st = (ps, st', left)"
    by (rule conjI)
qed

lemma step_run:
  "cycle_body [] ''k'' 15 75 (scroll_only 2 100 2 130 1)
     \<lparr>url_crawled = [], last_height = 100, scroll_attempts = 2\<rparr>
   = ([], \<lparr>url_crawled = [], last_height = 130, scroll_attempts = 0\<rparr>, False)"
  by (simp add: run_simps scroll_only_def)

theorem scroll_attempts_step_witness:
  "cycle_body [] ''k'' 15 75 (scroll_only 2 100 2 130 1)
     \<lparr>url_crawled = [], last_height = 100, scroll_attempts = 2\<rparr>
   = ([], \<lparr>url_crawled = [], last_height = 130, scroll_attempts = 0\<rparr>, False) \<and>
   scroll_attempts \<lparr>url_crawled = [], last_height = 130, scroll_attempts = 0\<rparr>
     = (if new_height (scroll_only 2 100 2 130 1)
           = last_height \<lparr>url_crawled = [], last_height = 100, scroll_attempts = 2\<rparr>
        then scroll_attempts \<lparr>url_crawled = [], last_height = 100, scroll_attempts = 2\<rparr> + 1
        else 0) \<and>
   cycle_body [] ''k'' 15 75
     ((scroll_only 2 100 2 130 1)\<lparr>initial_count := 7, initial_height := 130, grown_count := 0\<rparr>)
     \<lparr>url_crawled = [], last_height = 100, scroll_attempts = 2\<rparr>
   = ([], \<lparr>url_crawled = [], last_height = 130, scroll_attempts = 0\<rparr>, False)"
proof -
  note t = scroll_attempts_step [where wl = "[]" and kw = "''k''" and max_posts = 15 and t = 75
      and c = "scroll_only 2 100 2 130 1"
      and st = "\<lparr>url_crawled = [], last_height = 100, scroll_attempts = 2\<rparr>"
      and ps = "[]" and st' = "\<lparr>url_crawled = [], last_height = 130, scroll_attempts = 0\<rparr>"
      and left = False and n = 7 and h = 130 and n' = 0]
  note a = t [THEN mp, OF step_run]
  from step_run a [THEN conjunct1] a [THEN conjunct2] show ?thesis by (intro conjI)
qed

text \<open>
  The claim as stated fails both ways. When the wait sees more elements at an unchanged
  height, new content was detected and yet the counter goes up. When the page grew during
  the scan and neither height nor count grows after the scroll, no growth is detected and
  yet the counter is reset.
\<close>
theorem growth_by_count_counterexample:
  "wait_until_growth (scroll_only 2 100 4 100 1) \<and>
   cycle_body [] ''k'' 15 75 (scroll_only 2 100 4 100 1)
     \<lparr>url_crawled = [], last_height = 100, scroll_attempts = 2\<rparr>
   = ([], \<lparr>url_crawled = [], last_height = 100, scroll_attempts = 3\<rparr>, False) \<and>
   \<not> wait_until_growth (scroll_only 2 120 2 120 1) \<and>
   cycle_body [] ''k'' 15 75 (scroll_only 2 120 2 120 1)
     \<lparr>url_crawled = [], last_height = 100, scroll_attempts = 2\<rparr>
   = ([], \<lparr>url_crawled = [], last_height = 120, scroll_attempts = 0\<rparr>, False)"
  by (simp add: run_simps scroll_only_def wait_until_growth_def)

end
